theory Spec2Isabelle
  imports Complex_Main "HOL-Library.Sublist"
begin

section \<open>Standalone types (standalone-types.ts)\<close>

text \<open>
  The enum \<^verbatim>\<open>LanguageModelChatMessageRole\<close> with its numeric values
  \<^verbatim>\<open>User = 1, Assistant = 2, System = 3\<close>.
\<close>

datatype LanguageModelChatMessageRole = User | Assistant | System


text \<open>The interface \<^verbatim>\<open>LanguageModelChatMessage\<close>; the optional name is an option.\<close>

record LanguageModelChatMessage =
  role :: LanguageModelChatMessageRole
  content :: string
  name :: "string option"

section \<open>Raw message types, as the converter reads them\<close>

text \<open>
  \<^verbatim>\<open>rawTypes.ts\<close> is not part of the sources at hand. The declarations below are the
  part of it that \<^verbatim>\<open>toStandaloneChatMessage\<close> and the tokenizers read: a content part
  has a kind, and a text part carries its text; a raw message has a role, a list of
  content parts and an optional name. The converter's \<^verbatim>\<open>switch\<close> names four roles
  and has a \<^verbatim>\<open>default\<close> branch; \<open>Raw_Other k\<close> stands for every role value
  that is none of the four, so that the default branch is a branch of the model.
  \<open>NonText k\<close> is a content part of any kind other than text.
\<close>

datatype ChatCompletionContentPart = Text string | NonText nat

datatype ChatRole = Raw_System | Raw_User | Raw_Assistant | Raw_Tool | Raw_Other nat

record ChatMessage =
  raw_role :: ChatRole
  raw_content :: "ChatCompletionContentPart list"
  raw_name :: "string option"

section \<open>Conversion to standalone chat messages (output/standalone.ts)\<close>

fun is_text_part :: "ChatCompletionContentPart \<Rightarrow> bool" where
  "is_text_part (Text t) = True"
| "is_text_part (NonText k) = False"

fun part_text :: "ChatCompletionContentPart \<Rightarrow> string" where
  "part_text (Text t) = t"
| "part_text (NonText k) = []"

definition onlyStringContent :: "ChatCompletionContentPart list \<Rightarrow> string" where
  "onlyStringContent parts = concat (map part_text (filter is_text_part parts))"

definition toStandaloneChatMessage :: "ChatMessage \<Rightarrow> LanguageModelChatMessage option" where
  "toStandaloneChatMessage m =
     (case raw_role m of
        Raw_Assistant \<Rightarrow>
          Some \<lparr>role = Assistant, content = onlyStringContent (raw_content m), name = raw_name m\<rparr>
      | Raw_User \<Rightarrow>
          Some \<lparr>role = User, content = onlyStringContent (raw_content m), name = raw_name m\<rparr>
      | Raw_System \<Rightarrow>
          Some \<lparr>role = System, content = onlyStringContent (raw_content m), name = raw_name m\<rparr>
      | Raw_Tool \<Rightarrow>
          Some \<lparr>role = User,
                content = ''Tool result: '' @ onlyStringContent (raw_content m),
                name = raw_name m\<rparr>
      | Raw_Other k \<Rightarrow> None)"

text \<open>
  \<^verbatim>\<open>messages.map(toStandaloneChatMessage).filter(r => !!r)\<close>: an object is truthy and
  \<^verbatim>\<open>undefined\<close> is not, so the filter keeps exactly the defined results.
\<close>

definition toStandaloneChatMessages :: "ChatMessage list \<Rightarrow> LanguageModelChatMessage list" where
  "toStandaloneChatMessages messages =
     map the (filter (\<lambda>r. r \<noteq> None) (map toStandaloneChatMessage messages))"

section \<open>Output modes (output/mode.ts)\<close>

datatype OutputMode = Raw | OpenAI | VSCode

fun mode_value :: "OutputMode \<Rightarrow> nat" where
  "mode_value Raw = 1"
| "mode_value OpenAI = 2"
| "mode_value VSCode = 4"

section \<open>Tokenizers (tokenizer/standalone-tokenizer.ts)\<close>

datatype error = Error string

text \<open>
  The callback of \<^verbatim>\<open>StandaloneTokenizer\<close> and \<^verbatim>\<open>VSCodeTokenizer\<close> takes a string or
  a message; the union is a sum.
\<close>

type_synonym countTokens_fn = "string + LanguageModelChatMessage \<Rightarrow> int"

record StandaloneTokenizer =
  standalone_countTokens :: countTokens_fn
  standalone_mode :: OutputMode

record VSCodeTokenizer =
  vscode_countTokens :: countTokens_fn
  vscode_mode :: OutputMode

text \<open>
  The constructors: the field initialiser sets \<^verbatim>\<open>mode\<close> to \<^verbatim>\<open>OutputMode.VSCode\<close>,
  the body throws when the argument is another mode.
\<close>

definition new_StandaloneTokenizer :: "countTokens_fn \<Rightarrow> OutputMode \<Rightarrow> error + StandaloneTokenizer" where
  "new_StandaloneTokenizer countTokens mode =
     (if mode \<noteq> VSCode
      then Inl (Error ''`mode` must be set to vscode when using LanguageModelChat as the tokenizer'')
      else Inr \<lparr>standalone_countTokens = countTokens, standalone_mode = VSCode\<rparr>)"

definition new_VSCodeTokenizer :: "countTokens_fn \<Rightarrow> OutputMode \<Rightarrow> error + VSCodeTokenizer" where
  "new_VSCodeTokenizer countTokens mode =
     (if mode \<noteq> VSCode
      then Inl (Error ''`mode` must be set to vscode when using vscode.LanguageModelChat as the tokenizer'')
      else Inr \<lparr>vscode_countTokens = countTokens, vscode_mode = VSCode\<rparr>)"

text \<open>
  \<^verbatim>\<open>SimpleTokenizer\<close>. Its only field is \<^verbatim>\<open>mode\<close>. Each method is translated with
  explicit state passing: it takes the instance and returns its result together with the
  instance after the call.

  A JavaScript string is a sequence of code units and \<^verbatim>\<open>length\<close> counts them; here a
  string is a list of \<open>char\<close>, one per code unit, so the model covers the code units
  below 256. \<open>is_space\<close> is the part of the class \<^verbatim>\<open>\s\<close> in that range (TAB, LF, VT,
  FF, CR, SPACE and NBSP); \<^verbatim>\<open>trim\<close> removes the same characters.
\<close>

record SimpleTokenizer =
  simple_mode :: OutputMode

definition new_SimpleTokenizer :: SimpleTokenizer where
  "new_SimpleTokenizer = \<lparr>simple_mode = VSCode\<rparr>"

definition is_space :: "char \<Rightarrow> bool" where
  "is_space c = (c \<in> {CHR 0x09, CHR 0x0A, CHR 0x0B, CHR 0x0C, CHR 0x0D, CHR 0x20, CHR 0xA0})"

definition trim :: "string \<Rightarrow> string" where
  "trim s = rev (dropWhile is_space (rev (dropWhile is_space s)))"

text \<open>
  \<^verbatim>\<open>s.split(/\s+/)\<close>: the pieces between the maximal runs of whitespace, an empty piece
  before a leading run and after a trailing one, and the one piece \<^verbatim>\<open>""\<close> for the
  empty string. \<open>cur\<close> is the piece being read, reversed.
\<close>

function split_ws_from :: "string \<Rightarrow> string \<Rightarrow> string list" where
  "split_ws_from cur [] = [rev cur]"
| "split_ws_from cur (c # cs) =
     (if is_space c then rev cur # split_ws_from [] (dropWhile is_space cs)
      else split_ws_from (c # cur) cs)"
  by pat_completeness auto
termination
  by (relation "measure (\<lambda>(cur, s). length s)") (auto simp: length_dropWhile_le less_Suc_eq_le)

definition split_ws :: "string \<Rightarrow> string list" where
  "split_ws s = split_ws_from [] s"

text \<open>
  \<^verbatim>\<open>Math.ceil(chars / 4)\<close> for an integer \<open>chars\<close> is written with integer division
  (lemma \<open>ceil_quarter\<close> below relates it to the ceiling of the real quotient).
\<close>

definition estimateTokenCount :: "SimpleTokenizer \<Rightarrow> string \<Rightarrow> int \<times> SimpleTokenizer" where
  "estimateTokenCount this text =
     (if text = [] then (0, this)
      else (let words = int (length (split_ws (trim text)));
                chars = int (length text)
            in (max words (- ((- chars) div 4)), this)))"

definition tokenLength :: "SimpleTokenizer \<Rightarrow> ChatCompletionContentPart \<Rightarrow> int \<times> SimpleTokenizer" where
  "tokenLength this part =
     (case part of Text t \<Rightarrow> estimateTokenCount this t | NonText k \<Rightarrow> (0, this))"

definition countMessageTokens :: "SimpleTokenizer \<Rightarrow> LanguageModelChatMessage \<Rightarrow> int \<times> SimpleTokenizer" where
  "countMessageTokens this message = estimateTokenCount this (content message)"

text \<open>
  The number of whitespace-separated words of a string, as the specification words it:
  the number of maximal runs of characters that are not whitespace. \<open>inw\<close> says
  whether the previous character belongs to a word.
\<close>

fun count_words :: "bool \<Rightarrow> string \<Rightarrow> nat" where
  "count_words inw [] = 0"
| "count_words inw (c # cs) =
     (if is_space c then count_words False cs
      else (if inw then 0 else 1) + count_words True cs)"

definition word_count :: "string \<Rightarrow> nat" where
  "word_count s = count_words False s"

text \<open>Auxiliary: the number of maximal runs of whitespace, and the class of the last character.\<close>

fun count_runs :: "bool \<Rightarrow> string \<Rightarrow> nat" where
  "count_runs inws [] = 0"
| "count_runs inws (c # cs) =
     (if is_space c then (if inws then 0 else 1) + count_runs True cs
      else count_runs False cs)"

definition ends_in_word :: "bool \<Rightarrow> string \<Rightarrow> bool" where
  "ends_in_word inw s = (if s = [] then inw else \<not> is_space (last s))"

section \<open>Cancellation (standalone-types.ts)\<close>

text \<open>
  \<^verbatim>\<open>CancellationTokenSource\<close>. A listener is a callback. The model identifies it by a
  number, as \<^verbatim>\<open>indexOf\<close> identifies it by the function object, and takes what it
  does when it is invoked from a parameter \<open>body\<close>: a sequence of calls on the source
  and its token, which a throw may end.
\<close>

type_synonym listener = nat

datatype action =
  Act_onCancellationRequested listener
| Act_registration_dispose listener
| Act_cancel
| Act_dispose
| Act_throw

record CancellationTokenSource =
  token_isCancellationRequested :: bool
  isCancelled :: bool
  listeners :: "listener list"

definition new_CancellationTokenSource :: CancellationTokenSource where
  "new_CancellationTokenSource =
     \<lparr>token_isCancellationRequested = False, isCancelled = False, listeners = []\<rparr>"

definition onCancellationRequested :: "CancellationTokenSource \<Rightarrow> listener \<Rightarrow> CancellationTokenSource" where
  "onCancellationRequested src l = src\<lparr>listeners := listeners src @ [l]\<rparr>"

text \<open>
  \<open>registration_dispose\<close> is the \<^verbatim>\<open>dispose\<close> of the object that
  \<^verbatim>\<open>onCancellationRequested\<close> returns: \<^verbatim>\<open>indexOf\<close> and \<^verbatim>\<open>splice\<close> remove the
  first occurrence of the listener in the array \<^verbatim>\<open>this._listeners\<close> of that moment.
\<close>

definition registration_dispose :: "CancellationTokenSource \<Rightarrow> listener \<Rightarrow> CancellationTokenSource" where
  "registration_dispose src l = src\<lparr>listeners := remove1 l (listeners src)\<rparr>"

text \<open>
  The state of \<^verbatim>\<open>this._listeners.forEach(...)\<close> in \<^verbatim>\<open>cancel\<close>: the source, the
  listeners invoked so far, and the array that is walked. That array is the array
  \<^verbatim>\<open>this._listeners\<close> itself, so a registration or a disposal made by a listener
  changes it under the walk (\<open>detached = None\<close>); once a listener calls the source's
  \<^verbatim>\<open>dispose\<close>, which assigns a new array to \<^verbatim>\<open>this._listeners\<close>, the walk goes on
  over the old array, which nothing changes any more (\<open>detached = Some arr\<close>).
\<close>

record notification =
  source :: CancellationTokenSource
  detached :: "listener list option"
  invoked :: "listener list"

definition iterated :: "notification \<Rightarrow> listener list" where
  "iterated st = (case detached st of None \<Rightarrow> listeners (source st) | Some arr \<Rightarrow> arr)"

text \<open>
  One call made by a listener. While the listeners are notified \<^verbatim>\<open>_isCancelled\<close> is
  true, and nothing ever sets it back, so a nested \<^verbatim>\<open>cancel\<close> does nothing and a nested
  \<^verbatim>\<open>dispose\<close> only assigns the new empty array. The boolean says that the listener
  has thrown.
\<close>

fun perform :: "notification \<Rightarrow> action \<Rightarrow> notification \<times> bool" where
  "perform st (Act_onCancellationRequested l) =
     (st\<lparr>source := onCancellationRequested (source st) l\<rparr>, False)"
| "perform st (Act_registration_dispose l) =
     (st\<lparr>source := registration_dispose (source st) l\<rparr>, False)"
| "perform st Act_cancel = (st, False)"
| "perform st Act_dispose =
     (st\<lparr>source := (source st)\<lparr>listeners := []\<rparr>, detached := Some (iterated st)\<rparr>, False)"
| "perform st Act_throw = (st, True)"

fun call_listener :: "notification \<Rightarrow> action list \<Rightarrow> notification \<times> bool" where
  "call_listener st [] = (st, False)"
| "call_listener st (a # as) =
     (let (st', thrown) = perform st a
      in if thrown then (st', True) else call_listener st' as)"

text \<open>
  \<^verbatim>\<open>Array.prototype.forEach\<close>: the length is read once, before the walk (\<open>n\<close>
  counts the indices that are left); at every index \<open>k\<close> that the array still has,
  the element found there at that moment is called. An exception ends the walk.
\<close>

fun forEach :: "(listener \<Rightarrow> action list) \<Rightarrow> nat \<Rightarrow> nat \<Rightarrow> notification \<Rightarrow> notification \<times> bool" where
  "forEach body 0 k st = (st, False)"
| "forEach body (Suc n) k st =
     (if k < length (iterated st)
      then (let l = iterated st ! k;
                (st', thrown) = call_listener (st\<lparr>invoked := invoked st @ [l]\<rparr>) (body l)
            in if thrown then (st', True) else forEach body n (k + 1) st')
      else forEach body n (k + 1) st)"

text \<open>
  \<^verbatim>\<open>cancel\<close> and \<^verbatim>\<open>dispose\<close> return the source after the call, the listeners
  invoked, in order, and whether an exception left the call. An exception out of
  \<^verbatim>\<open>cancel\<close> leaves \<^verbatim>\<open>dispose\<close> before it clears the listeners.
\<close>

definition cancel :: "(listener \<Rightarrow> action list) \<Rightarrow> CancellationTokenSource
    \<Rightarrow> CancellationTokenSource \<times> listener list \<times> bool" where
  "cancel body src =
     (if \<not> isCancelled src
      then (let src1 = src\<lparr>isCancelled := True, token_isCancellationRequested := True\<rparr>;
                (st, thrown) = forEach body (length (listeners src1)) 0
                                 \<lparr>source = src1, detached = None, invoked = []\<rparr>
            in (source st, invoked st, thrown))
      else (src, [], False))"

definition dispose :: "(listener \<Rightarrow> action list) \<Rightarrow> CancellationTokenSource
    \<Rightarrow> CancellationTokenSource \<times> listener list \<times> bool" where
  "dispose body src =
     (let (src', calls, thrown) = cancel body src
      in if thrown then (src', calls, True) else (src'\<lparr>listeners := []\<rparr>, calls, False))"

text \<open>
  A history of calls on one source from outside, and the listener invocations it
  produces; \<open>Unregister l\<close> is the disposal of a registration of \<open>l\<close>. A caller
  that gets an exception goes on with the history.
\<close>

datatype source_op = Register listener | Unregister listener | Cancel | Dispose

fun step :: "(listener \<Rightarrow> action list) \<Rightarrow> CancellationTokenSource \<times> listener list \<Rightarrow> source_op
    \<Rightarrow> CancellationTokenSource \<times> listener list" where
  "step body (src, calls) (Register l) = (onCancellationRequested src l, calls)"
| "step body (src, calls) (Unregister l) = (registration_dispose src l, calls)"
| "step body (src, calls) Cancel = (let (src', new, thrown) = cancel body src in (src', calls @ new))"
| "step body (src, calls) Dispose = (let (src', new, thrown) = dispose body src in (src', calls @ new))"

definition run :: "(listener \<Rightarrow> action list) \<Rightarrow> source_op list \<Rightarrow> CancellationTokenSource \<times> listener list" where
  "run body ops = foldl (step body) (new_CancellationTokenSource, []) ops"





text \<open>
  Listeners for concrete runs: none does anything; listener 1 disposes its own
  registration; listener 1 throws; listener 1 disposes the source and registers listener 9.
\<close>

definition inert :: "listener \<Rightarrow> action list" where
  "inert l = []"

definition self_disposing :: "listener \<Rightarrow> action list" where
  "self_disposing l = (if l = 1 then [Act_registration_dispose 1] else [])"

definition throwing :: "listener \<Rightarrow> action list" where
  "throwing l = (if l = 1 then [Act_throw] else [])"

definition disposing_source :: "listener \<Rightarrow> action list" where
  "disposing_source l = (if l = 1 then [Act_dispose, Act_onCancellationRequested 9] else [])"


section \<open>Cooperative file contents (examples/standalone-file-contents.tsx)\<close>

text \<open>
  \<^verbatim>\<open>focusLine\<close> is optional, and a number that the source checks nowhere: it need
  be neither an integer nor within the file. A number is a rational here, so \<^verbatim>\<open>NaN\<close>
  and the infinities are left out; \<^verbatim>\<open>aboveLine\<close> and \<^verbatim>\<open>belowLine\<close> start from the
  focus line and are numbers of the same kind. The default focus line is
  \<^verbatim>\<open>Math.floor(this.allLines.length / 2)\<close>. The tracker's field \<^verbatim>\<open>file\<close> is
  read by the constructor only and is left out of the record. \<^verbatim>\<open>PromptSizing\<close> carries the budget and the
  \<^verbatim>\<open>countTokens\<close> operation, which is any function from strings to integers.
\<close>

record IFilesToInclude =
  filename :: string
  file_content :: string
  focusLine :: "rat option"

record PromptSizing =
  tokenBudget :: int
  countTokens :: "string \<Rightarrow> int"

datatype NextLineIs = Next_above | Next_below | Next_none

record FileContextTracker =
  prefix :: string
  suffix :: string
  lines :: "string option list"
  allLines :: "string list"
  aboveLine :: rat
  belowLine :: rat
  nextLineIs :: NextLineIs

text \<open>\<^verbatim>\<open>content.split('\n')\<close>: the pieces between the newlines; one empty piece for the empty string.\<close>

fun split_newline_from :: "string \<Rightarrow> string \<Rightarrow> string list" where
  "split_newline_from cur [] = [rev cur]"
| "split_newline_from cur (c # cs) =
     (if c = CHR 0x0A then rev cur # split_newline_from [] cs
      else split_newline_from (c # cur) cs)"

definition split_newline :: "string \<Rightarrow> string list" where
  "split_newline s = split_newline_from [] s"

definition new_FileContextTracker :: "IFilesToInclude \<Rightarrow> FileContextTracker" where
  "new_FileContextTracker f =
     (let all = split_newline (file_content f);
          focus = (case focusLine f of Some n \<Rightarrow> n | None \<Rightarrow> of_int (int (length all) div 2))
      in \<lparr>prefix = ''# '' @ filename f @ [CHR 0x0A] @ ''```'' @ [CHR 0x0A],
          suffix = [CHR 0x0A] @ ''```'' @ [CHR 0x0A],
          lines = [],
          allLines = all,
          aboveLine = focus,
          belowLine = focus,
          nextLineIs = Next_above\<rparr>)"

text \<open>
  Reading an array at a number that is not an integer within its range gives
  \<^verbatim>\<open>undefined\<close>, here \<open>None\<close>; the array \<^verbatim>\<open>lines\<close> can therefore hold \<^verbatim>\<open>undefined\<close> entries. Concatenating
  \<^verbatim>\<open>undefined\<close> with a string gives the text \<^verbatim>\<open>undefined\<close>, and
  \<^verbatim>\<open>join\<close> writes it as the empty string.
\<close>

definition element :: "'a list \<Rightarrow> rat \<Rightarrow> 'a option" where
  "element xs i =
     (if of_int \<lfloor>i\<rfloor> = i \<and> 0 \<le> i \<and> i < of_nat (length xs)
      then Some (xs ! nat \<lfloor>i\<rfloor>) else None)"

definition js_string :: "string option \<Rightarrow> string" where
  "js_string v = (case v of Some s \<Rightarrow> s | None \<Rightarrow> ''undefined'')"

definition tokenCount :: "FileContextTracker \<Rightarrow> PromptSizing \<Rightarrow> int" where
  "tokenCount t sizing =
     (let n_before = countTokens sizing (prefix t);
          n_after = countTokens sizing (suffix t)
      in n_before + n_after)"

definition nextLine :: "FileContextTracker \<Rightarrow> string option" where
  "nextLine t =
     (case nextLineIs t of
        Next_above \<Rightarrow>
          (if aboveLine t \<ge> 0
           then Some (js_string (element (allLines t) (aboveLine t)) @ [CHR 0x0A]) else None)
      | Next_below \<Rightarrow>
          (if belowLine t < of_nat (length (allLines t))
           then Some (js_string (element (allLines t) (belowLine t)) @ [CHR 0x0A]) else None)
      | Next_none \<Rightarrow> None)"

definition expand :: "FileContextTracker \<Rightarrow> FileContextTracker" where
  "expand t =
     (if nextLineIs t = Next_above \<and> aboveLine t \<ge> 0 then
        (let t1 = t\<lparr>lines := element (allLines t) (aboveLine t) # lines t\<rparr>
         in if belowLine t1 < of_nat (length (allLines t1)) - 1
            then t1\<lparr>belowLine := belowLine t1 + 1, nextLineIs := Next_below\<rparr>
            else if aboveLine t1 > 0
            then t1\<lparr>aboveLine := aboveLine t1 - 1\<rparr>
            else t1\<lparr>nextLineIs := Next_none\<rparr>)
      else if nextLineIs t = Next_below \<and> belowLine t < of_nat (length (allLines t)) then
        (let t1 = t\<lparr>lines := lines t @ [element (allLines t) (belowLine t)]\<rparr>
         in if aboveLine t1 > 0
            then t1\<lparr>aboveLine := aboveLine t1 - 1, nextLineIs := Next_above\<rparr>
            else if belowLine t1 < of_nat (length (allLines t1)) - 1
            then t1\<lparr>belowLine := belowLine t1 + 1\<rparr>
            else t1\<lparr>nextLineIs := Next_none\<rparr>)
      else t)"

definition join_string :: "string option \<Rightarrow> string" where
  "join_string v = (case v of Some s \<Rightarrow> s | None \<Rightarrow> [])"

fun join :: "string \<Rightarrow> string list \<Rightarrow> string" where
  "join sep [] = []"
| "join sep [x] = x"
| "join sep (x # y # ys) = x @ sep @ join sep (y # ys)"

definition toString :: "FileContextTracker \<Rightarrow> string" where
  "toString t = prefix t @ join [CHR 0x0A] (map join_string (lines t)) @ suffix t"

text \<open>
  \<^verbatim>\<open>getExpandedFiles\<close>. \<open>for_files\<close> is one run of the inner \<^verbatim>\<open>for\<close> loop over
  the files that are left, \<open>returned\<close> says that it left through the
  \<^verbatim>\<open>return files\<close> in its body; \<open>while_true\<close> is the outer loop. The trackers
  are mutated in place in the source, so the list returned holds the trackers as they are
  at that moment.
\<close>

record round_result =
  returned :: bool
  round_files :: "FileContextTracker list"
  round_tokenCount :: int
  anyHadLinesToExpand :: bool

fun for_files :: "PromptSizing \<Rightarrow> FileContextTracker list \<Rightarrow> int \<Rightarrow> bool \<Rightarrow> round_result" where
  "for_files sizing [] tc any =
     \<lparr>returned = False, round_files = [], round_tokenCount = tc, anyHadLinesToExpand = any\<rparr>"
| "for_files sizing (file # rest) tc any =
     (case nextLine file of
        None \<Rightarrow>
          (let r = for_files sizing rest tc any in r\<lparr>round_files := file # round_files r\<rparr>)
      | Some l \<Rightarrow>
          (let nextTokenCount = countTokens sizing l
           in if tc + nextTokenCount > tokenBudget sizing
              then \<lparr>returned = True, round_files = file # rest, round_tokenCount = tc,
                     anyHadLinesToExpand = True\<rparr>
              else (let r = for_files sizing rest (tc + nextTokenCount) True
                    in r\<lparr>round_files := expand file # round_files r\<rparr>)))"

text \<open>
  The outer loop ends: \<open>remaining\<close> bounds the number of lines a tracker can still
  add, and a round that neither returns nor finds every file exhausted expands a line.
\<close>

definition remaining :: "FileContextTracker \<Rightarrow> nat" where
  "remaining t =
     (if nextLineIs t = Next_none then 0
      else 1 + nat \<lceil>aboveLine t\<rceil> + nat \<lceil>of_nat (length (allLines t)) - 1 - belowLine t\<rceil>)"

lemma nextLine_None_iff:
  "nextLine t = None \<longleftrightarrow>
     \<not> (nextLineIs t = Next_above \<and> aboveLine t \<ge> 0)
     \<and> \<not> (nextLineIs t = Next_below \<and> belowLine t < of_nat (length (allLines t)))"
  by (auto simp: nextLine_def split: NextLineIs.splits)

lemma allLines_expand [simp]: "allLines (expand t) = allLines t"
  by (simp add: expand_def Let_def)

lemma ceiling_pred_less: "0 < (x::rat) \<Longrightarrow> nat \<lceil>x - 1\<rceil> < nat \<lceil>x\<rceil>"
proof -
  assume "0 < x"
  then have "0 < \<lceil>x\<rceil>" by simp
  then show ?thesis by (simp add: ceiling_diff_one)
qed

lemma remaining_expand:
  assumes "nextLine t \<noteq> None"
  shows "remaining (expand t) < remaining t"
proof -
  let ?n = "of_nat (length (allLines t)) :: rat"
  let ?A = "nat \<lceil>aboveLine t\<rceil>" and ?B = "nat \<lceil>?n - 1 - belowLine t\<rceil>"
  have step_below: "belowLine t < ?n - 1 \<Longrightarrow> nat \<lceil>?n - 1 - (belowLine t + 1)\<rceil> < ?B"
    using ceiling_pred_less [of "?n - 1 - belowLine t"] by (simp add: algebra_simps)
  have step_above: "0 < aboveLine t \<Longrightarrow> nat \<lceil>aboveLine t - 1\<rceil> < ?A"
    by (rule ceiling_pred_less)
  from assms consider (a) "nextLineIs t = Next_above" "aboveLine t \<ge> 0"
    | (b) "nextLineIs t = Next_below" "belowLine t < ?n"
    by (auto simp: nextLine_None_iff)
  then show ?thesis
  proof cases
    case a
    then have r: "remaining t = 1 + ?A + ?B" by (simp add: remaining_def)
    consider (below) "belowLine t < ?n - 1" | (above) "\<not> belowLine t < ?n - 1" "0 < aboveLine t"
      | (none) "\<not> belowLine t < ?n - 1" "\<not> 0 < aboveLine t" by blast
    then show ?thesis
    proof cases
      case below
      have "remaining (expand t) = 1 + ?A + nat \<lceil>?n - 1 - (belowLine t + 1)\<rceil>"
        using a below by (simp add: expand_def remaining_def Let_def)
      with r step_below [OF below]
      show ?thesis by simp
    next
      case above
      have "remaining (expand t) = 1 + nat \<lceil>aboveLine t - 1\<rceil> + ?B"
        using a above by (simp add: expand_def remaining_def Let_def)
      with r step_above [OF above(2)]
      show ?thesis by simp
    next
      case none
      have "remaining (expand t) = 0"
        using a none by (simp add: expand_def remaining_def Let_def)
      with r show ?thesis by simp
    qed
  next
    case b
    then have r: "remaining t = 1 + ?A + ?B" by (simp add: remaining_def)
    consider (above) "0 < aboveLine t" | (below) "\<not> 0 < aboveLine t" "belowLine t < ?n - 1"
      | (none) "\<not> 0 < aboveLine t" "\<not> belowLine t < ?n - 1" by blast
    then show ?thesis
    proof cases
      case above
      have "remaining (expand t) = 1 + nat \<lceil>aboveLine t - 1\<rceil> + ?B"
        using b above by (simp add: expand_def remaining_def Let_def)
      with r step_above [OF above]
      show ?thesis by simp
    next
      case below
      have "remaining (expand t) = 1 + ?A + nat \<lceil>?n - 1 - (belowLine t + 1)\<rceil>"
        using b below by (simp add: expand_def remaining_def Let_def)
      with r step_below [OF below(2)]
      show ?thesis by simp
    next
      case none
      have "remaining (expand t) = 0"
        using b none by (simp add: expand_def remaining_def Let_def)
      with r show ?thesis by simp
    qed
  qed
qed

lemma for_files_length [simp]: "length (round_files (for_files sizing fs tc any)) = length fs"
  by (induction fs arbitrary: tc any) (auto simp: Let_def split: option.splits)

lemma for_files_remaining_le:
  "sum_list (map remaining (round_files (for_files sizing fs tc any))) \<le> sum_list (map remaining fs)"
proof (induction fs arbitrary: tc any)
  case Nil
  show ?case by simp
next
  case (Cons f fs)
  show ?case
  proof (cases "nextLine f")
    case None
    with Cons.IH [of tc any] show ?thesis by (simp add: Let_def)
  next
    case (Some l)
    then have "remaining (expand f) < remaining f" by (simp add: remaining_expand)
    with Some Cons.IH [of "tc + countTokens sizing l" True] show ?thesis
      by (simp add: Let_def add_mono less_imp_le)
  qed
qed

lemma for_files_any:
  "\<not> returned (for_files sizing fs tc any) \<Longrightarrow> anyHadLinesToExpand (for_files sizing fs tc any) \<Longrightarrow>
   \<not> any \<Longrightarrow>
   sum_list (map remaining (round_files (for_files sizing fs tc any))) < sum_list (map remaining fs)"
proof (induction fs arbitrary: tc)
  case Nil
  then show ?case by simp
next
  case (Cons f fs)
  show ?case
  proof (cases "nextLine f")
    case None
    with Cons.prems Cons.IH [of tc] show ?thesis by (simp add: Let_def)
  next
    case (Some l)
    then have "remaining (expand f) < remaining f" by (simp add: remaining_expand)
    moreover have "sum_list (map remaining (round_files (for_files sizing fs (tc + countTokens sizing l) True)))
        \<le> sum_list (map remaining fs)" by (rule for_files_remaining_le)
    ultimately show ?thesis using Some Cons.prems
      by (simp add: Let_def split: if_splits)
  qed
qed

function while_true :: "PromptSizing \<Rightarrow> FileContextTracker list \<Rightarrow> int \<Rightarrow> FileContextTracker list" where
  "while_true sizing files tc =
     (let r = for_files sizing files tc False
      in if returned r then round_files r
         else if \<not> anyHadLinesToExpand r then round_files r
         else while_true sizing (round_files r) (round_tokenCount r))"
  by pat_completeness auto
termination
  by (relation "measure (\<lambda>(sizing, files, tc). sum_list (map remaining files))")
     (auto simp: for_files_any)

declare while_true.simps [simp del]

definition getExpandedFiles :: "IFilesToInclude list \<Rightarrow> PromptSizing \<Rightarrow> FileContextTracker list" where
  "getExpandedFiles props_files sizing =
     (let files = map new_FileContextTracker props_files;
          tokenCount0 = foldl (\<lambda>tc file. tc + tokenCount file sizing) 0 files
      in while_true sizing files tokenCount0)"

text \<open>
  The token cost of the returned content: for every file its header and footer and every
  line it holds, each measured as \<^verbatim>\<open>getExpandedFiles\<close> measures it (the line followed
  by a newline). \<open>headers_tokenCount\<close> is the value of \<^verbatim>\<open>tokenCount\<close> when the
  outer loop starts. \<open>grows\<close>: the lines of one tracker are a contiguous part of the
  lines of another.
\<close>

definition content_cost :: "PromptSizing \<Rightarrow> FileContextTracker \<Rightarrow> int" where
  "content_cost sizing t =
     tokenCount t sizing
     + sum_list (map (\<lambda>l. countTokens sizing (js_string l @ [CHR 0x0A])) (lines t))"

definition total_cost :: "PromptSizing \<Rightarrow> FileContextTracker list \<Rightarrow> int" where
  "total_cost sizing files = sum_list (map (content_cost sizing) files)"

definition grows :: "FileContextTracker \<Rightarrow> FileContextTracker \<Rightarrow> bool" where
  "grows t t' = sublist (lines t) (lines t')"

definition headers_tokenCount :: "IFilesToInclude list \<Rightarrow> PromptSizing \<Rightarrow> int" where
  "headers_tokenCount props_files sizing =
     foldl (\<lambda>tc file. tc + tokenCount file sizing) 0 (map new_FileContextTracker props_files)"

text \<open>
  What the claims about a tracker speak of. \<open>slice lo hi xs\<close> is the part of
  \<open>xs\<close> from index \<open>lo\<close> up to, not including, \<open>hi\<close>. \<open>focus_of\<close> is
  the focus line the constructor computes. \<open>valid_focus\<close>: the focus line is an
  integer and lies before the end of the file.
\<close>

definition slice :: "int \<Rightarrow> int \<Rightarrow> 'a list \<Rightarrow> 'a list" where
  "slice lo hi xs = take (nat (hi - lo)) (drop (nat lo) xs)"

definition focus_of :: "IFilesToInclude \<Rightarrow> rat" where
  "focus_of f =
     (case focusLine f of Some n \<Rightarrow> n
      | None \<Rightarrow> of_int (int (length (split_newline (file_content f))) div 2))"

definition valid_focus :: "IFilesToInclude \<Rightarrow> bool" where
  "valid_focus f =
     (of_int \<lfloor>focus_of f\<rfloor> = focus_of f
      \<and> focus_of f < of_nat (length (split_newline (file_content f))))"

text \<open>
  A history of calls on one tracker. \<^verbatim>\<open>nextLine\<close> assigns nothing, so it leaves the
  tracker as it is. Beside the tracker the history keeps the indices of the source lines
  that the calls of \<^verbatim>\<open>expand\<close> have read and added, in order: \<open>expand_index\<close> is
  the index that \<^verbatim>\<open>expand\<close> reads in the branch it takes.
\<close>

definition expand_index :: "FileContextTracker \<Rightarrow> rat option" where
  "expand_index t =
     (if nextLineIs t = Next_above \<and> aboveLine t \<ge> 0 then Some (aboveLine t)
      else if nextLineIs t = Next_below \<and> belowLine t < of_nat (length (allLines t))
      then Some (belowLine t)
      else None)"

datatype tracker_call = Call_nextLine | Call_expand

fun call :: "FileContextTracker \<times> rat list \<Rightarrow> tracker_call \<Rightarrow> FileContextTracker \<times> rat list" where
  "call (t, added) Call_nextLine = (t, added)"
| "call (t, added) Call_expand =
     (expand t, added @ (case expand_index t of None \<Rightarrow> [] | Some i \<Rightarrow> [i]))"

definition run_calls :: "IFilesToInclude \<Rightarrow> tracker_call list \<Rightarrow> FileContextTracker \<times> rat list" where
  "run_calls f calls = foldl call (new_FileContextTracker f, []) calls"

text \<open>
  The part of the file a tracker holds, read off its state: the line at
  \<^verbatim>\<open>aboveLine\<close> (\<^verbatim>\<open>belowLine\<close>) is still to be added when it is the next line,
  and has been added otherwise (the bounds are read as integers, which they are when the
  focus line is one). \<open>tracker_inv\<close> is the invariant of a tracker whose focus line
  \<open>F\<close> is a line of the file.
\<close>

definition bounds :: "FileContextTracker \<Rightarrow> int \<times> int" where
  "bounds t =
     (case nextLineIs t of
        Next_above \<Rightarrow> (\<lfloor>aboveLine t\<rfloor> + 1, \<lfloor>belowLine t\<rfloor> + 1)
      | Next_below \<Rightarrow> (\<lfloor>aboveLine t\<rfloor>, \<lfloor>belowLine t\<rfloor>)
      | Next_none \<Rightarrow> (\<lfloor>aboveLine t\<rfloor>, \<lfloor>belowLine t\<rfloor> + 1))"

definition tracker_inv :: "int \<Rightarrow> string list \<Rightarrow> FileContextTracker \<times> rat list \<Rightarrow> bool" where
  "tracker_inv F all st =
     (let t = fst st; added = snd st; n = int (length all);
          a = \<lfloor>aboveLine t\<rfloor>; b = \<lfloor>belowLine t\<rfloor>
      in allLines t = all \<and> aboveLine t = of_int a \<and> belowLine t = of_int b
         \<and> (case nextLineIs t of
              Next_above \<Rightarrow> 0 \<le> a \<and> a \<le> F \<and> F \<le> b \<and> b < n \<and> (a = F \<longrightarrow> b = F)
            | Next_below \<Rightarrow> 0 \<le> a \<and> a \<le> F \<and> F < b \<and> b < n
            | Next_none \<Rightarrow> a = 0 \<and> b = n - 1 \<and> 0 \<le> F \<and> F < n)
         \<and> lines t = map Some (slice (fst (bounds t)) (snd (bounds t)) all)
         \<and> set added = of_int ` {fst (bounds t) ..< snd (bounds t)}
         \<and> distinct added)"

text \<open>
  Two sizing contexts for concrete runs: one counts tokens with the
  \<^verbatim>\<open>SimpleTokenizer\<close>, the other counts one token for every character.
\<close>

definition simple_sizing :: "int \<Rightarrow> PromptSizing" where
  "simple_sizing budget =
     \<lparr>tokenBudget = budget,
      countTokens = (\<lambda>text. fst (tokenLength new_SimpleTokenizer (Text text)))\<rparr>"

definition length_sizing :: "int \<Rightarrow> PromptSizing" where
  "length_sizing budget = \<lparr>tokenBudget = budget, countTokens = (\<lambda>text. int (length text))\<rparr>"

section \<open>The render entry point\<close>

text \<open>
  Modelled from the spec: \<^verbatim>\<open>renderPrompt\<close> and the engine behind it (evaluator, budget
  allocator, pruner, flattener) are not among the sources; only a test and the examples
  call it. The model follows sections 4.3, 4.4, 6 and 7 of the specification.

  The evaluated tree is the list of its top-level messages in declaration order, each with
  the priority, the measured token cost, the role and the content of section 3; which
  nested nodes are prunable on their own is left open by section 9 and is not modelled.
  The element tree, the evaluator and the budget allocator (sections 4.1 and 4.2) are a
  parameter \<open>evaluate\<close>: any function from a tree and a budget to the list of evaluated
  messages or to a failure.
\<close>

datatype render_error =
  ConfigurationError | EvaluationError | BudgetInvariantViolation | CancellationError

record piece =
  piece_priority :: int
  tokenCost :: int
  piece_role :: LanguageModelChatMessageRole
  piece_content :: string
  piece_name :: "string option"

record render_result =
  messages :: "LanguageModelChatMessage list"
  result_tokenCount :: int

text \<open>
  Modelled from the spec: section 4.3, step 3. Units are accepted in the sorted order while
  the running total stays within the budget; the first unit that would exceed it and every
  unit after it are dropped.
\<close>

fun accept :: "int \<Rightarrow> int \<Rightarrow> (nat \<times> piece) list \<Rightarrow> (nat \<times> piece) list" where
  "accept budget running [] = []"
| "accept budget running (u # us) =
     (if running + tokenCost (snd u) \<le> budget
      then u # accept budget (running + tokenCost (snd u)) us
      else [])"

text \<open>
  Modelled from the spec: section 4.3, steps 1 to 3. Every unit is numbered by its place in
  the declaration order; the units are sorted by priority, highest first, with a stable
  sort, so that the declaration order breaks ties.
\<close>

definition prune :: "int \<Rightarrow> piece list \<Rightarrow> (nat \<times> piece) list" where
  "prune budget pieces =
     accept budget 0 (sort_key (\<lambda>u. - piece_priority (snd u)) (enumerate 0 pieces))"

text \<open>
  Modelled from the spec: section 4.4. The surviving units are emitted in declaration
  order, and the token count is the sum of their costs.
\<close>

definition flatten :: "(nat \<times> piece) list \<Rightarrow> render_result" where
  "flatten survivors =
     (let ordered = map snd (sort_key fst survivors)
      in \<lparr>messages = map (\<lambda>p. \<lparr>role = piece_role p, content = piece_content p,
                                  name = piece_name p\<rparr>) ordered,
          result_tokenCount = sum_list (map tokenCost ordered)\<rparr>)"

text \<open>
  Modelled from the spec: sections 6 and 7. The render fails on a budget that is not
  positive and on a failure of the evaluation, and returns no partial result then.
\<close>

definition render :: "('tree \<Rightarrow> int \<Rightarrow> render_error + piece list) \<Rightarrow> 'tree \<Rightarrow> int
    \<Rightarrow> render_error + render_result" where
  "render evaluate tree budget =
     (if budget \<le> 0 then Inl ConfigurationError
      else (case evaluate tree budget of
              Inl e \<Rightarrow> Inl e
            | Inr pieces \<Rightarrow> Inr (flatten (prune budget pieces))))"

text \<open>Scenario B of section 8, with costs 3, 10 and 4 for the three messages.\<close>

definition scenario_B :: "piece list" where
  "scenario_B =
     [\<lparr>piece_priority = 100, tokenCost = 3, piece_role = System, piece_content = ''x'', piece_name = None\<rparr>,
      \<lparr>piece_priority = 80, tokenCost = 10, piece_role = User, piece_content = ''long context'', piece_name = None\<rparr>,
      \<lparr>piece_priority = 90, tokenCost = 4, piece_role = User, piece_content = ''short question'', piece_name = None\<rparr>]"

section \<open>Properties of the conversion\<close>





definition known_role :: "ChatRole \<Rightarrow> bool" where
  "known_role r = (r = Raw_Assistant \<or> r = Raw_User \<or> r = Raw_System \<or> r = Raw_Tool)"

lemma toStandaloneChatMessage_None_iff:
  "toStandaloneChatMessage m = None \<longleftrightarrow> \<not> known_role (raw_role m)"
  by (simp add: toStandaloneChatMessage_def known_role_def split: ChatRole.splits)

lemma toStandaloneChatMessage_Some_iff:
  "(\<exists>y. toStandaloneChatMessage m = Some y) \<longleftrightarrow> known_role (raw_role m)"
  using toStandaloneChatMessage_None_iff [of m] by (cases "toStandaloneChatMessage m") simp_all

text \<open>
  C8. A Tool message becomes a User message whose content is \<open>''Tool result: ''\<close>
  followed by the concatenated text parts; a message whose role is none of the four has no
  result; the list conversion drops exactly the messages without result and keeps the
  others, converted, in their order.
\<close>

theorem tool_and_unknown_roles:
  "toStandaloneChatMessage \<lparr>raw_role = Raw_Tool, raw_content = c, raw_name = n\<rparr>
     = Some \<lparr>role = User,
             content = ''Tool result: '' @ concat (map part_text (filter is_text_part c)),
             name = n\<rparr>
   \<and> (toStandaloneChatMessage m = None \<longleftrightarrow> \<not> known_role (raw_role m))
   \<and> toStandaloneChatMessages ms
       = map (\<lambda>m. the (toStandaloneChatMessage m)) (filter (\<lambda>m. known_role (raw_role m)) ms)"
proof -
  have "toStandaloneChatMessages ms
       = map (\<lambda>m. the (toStandaloneChatMessage m)) (filter (\<lambda>m. known_role (raw_role m)) ms)"
    by (induction ms) (simp_all add: toStandaloneChatMessages_def toStandaloneChatMessage_Some_iff)
  then show ?thesis
    by (simp add: toStandaloneChatMessage_None_iff)
       (simp add: toStandaloneChatMessage_def onlyStringContent_def)
qed

section \<open>Properties of the tokenizer constructors\<close>

text \<open>
  C10. Each of the two constructors throws exactly when its mode argument is not
  \<open>VSCode\<close>, and an instance it returns has \<open>VSCode\<close> as its mode.
\<close>

theorem tokenizer_constructors:
  "((\<exists>e. new_StandaloneTokenizer f mode = Inl e) \<longleftrightarrow> mode \<noteq> VSCode)
   \<and> (\<forall>t. new_StandaloneTokenizer f mode = Inr t \<longrightarrow> standalone_mode t = VSCode)
   \<and> ((\<exists>e. new_VSCodeTokenizer f mode = Inl e) \<longleftrightarrow> mode \<noteq> VSCode)
   \<and> (\<forall>t. new_VSCodeTokenizer f mode = Inr t \<longrightarrow> vscode_mode t = VSCode)"
  by (auto simp: new_StandaloneTokenizer_def new_VSCodeTokenizer_def)

theorem tokenizer_constructors_witness:
  "new_StandaloneTokenizer (\<lambda>x. 1) VSCode
     = Inr \<lparr>standalone_countTokens = (\<lambda>x. 1), standalone_mode = VSCode\<rparr>
   \<and> standalone_mode \<lparr>standalone_countTokens = (\<lambda>x. 1), standalone_mode = VSCode\<rparr> = VSCode
   \<and> new_VSCodeTokenizer (\<lambda>x. 1) VSCode
     = Inr \<lparr>vscode_countTokens = (\<lambda>x. 1), vscode_mode = VSCode\<rparr>
   \<and> (\<exists>e. new_StandaloneTokenizer (\<lambda>x. 1) OpenAI = Inl e)
   \<and> (\<exists>e. new_VSCodeTokenizer (\<lambda>x. 1) Raw = Inl e)"
  using tokenizer_constructors [of "\<lambda>x. 1" VSCode] tokenizer_constructors [of "\<lambda>x. 1" OpenAI]
    tokenizer_constructors [of "\<lambda>x. 1" Raw]
  by (simp add: new_StandaloneTokenizer_def new_VSCodeTokenizer_def)

section \<open>Properties of the simple tokenizer\<close>

text \<open>
  C6. The two methods of \<open>SimpleTokenizer\<close> are functions of their argument alone:
  on any two instances and equal arguments they return equal counts, and the instance
  after a call is the instance before it.
\<close>

theorem simple_tokenizer_pure:
  "fst (tokenLength t1 p) = fst (tokenLength t2 p)
   \<and> snd (tokenLength t1 p) = t1
   \<and> fst (countMessageTokens t1 m) = fst (countMessageTokens t2 m)
   \<and> snd (countMessageTokens t1 m) = t1"
  by (simp add: tokenLength_def countMessageTokens_def estimateTokenCount_def Let_def
      split: ChatCompletionContentPart.split)

lemma length_split_ws_from: "length (split_ws_from cur s) = Suc (count_runs False s)"
proof (induction cur s rule: split_ws_from.induct)
  case (1 cur)
  then show ?case by simp
next
  case (2 cur c cs)
  show ?case
  proof (cases "is_space c")
    case True
    have "count_runs False (dropWhile is_space cs) = count_runs True cs"
      by (induction cs) auto
    with True 2 show ?thesis by simp
  next
    case False
    with 2 show ?thesis by simp
  qed
qed

lemma ends_in_word_Cons: "ends_in_word inw (c # cs) = ends_in_word (\<not> is_space c) cs"
  by (simp add: ends_in_word_def)

lemma words_runs:
  "int (count_words inw s) - int (count_runs (\<not> inw) s)
     = (if ends_in_word inw s then 1 else 0) - (if inw then 1 else 0)"
proof (induction s arbitrary: inw)
  case Nil
  show ?case by (simp add: ends_in_word_def)
next
  case (Cons c cs)
  show ?case
  proof (cases "is_space c")
    case True
    with Cons.IH [of False] show ?thesis by (simp add: ends_in_word_Cons)
  next
    case False
    with Cons.IH [of True] show ?thesis by (simp add: ends_in_word_Cons)
  qed
qed

lemma trim_hd: "trim s \<noteq> [] \<Longrightarrow> \<not> is_space (hd (trim s))"
proof -
  assume ne: "trim s \<noteq> []"
  let ?d = "dropWhile is_space s"
  have split: "?d = trim s @ rev (takeWhile is_space (rev ?d))"
    unfolding trim_def by (metis rev_append rev_rev_ident takeWhile_dropWhile_id)
  from split have "hd ?d = hd (trim s)" using ne by (metis hd_append2)
  moreover have "?d \<noteq> []" using ne by (cases "?d = []") (simp_all add: trim_def)
  then have "\<not> is_space (hd ?d)" by (rule hd_dropWhile)
  ultimately show ?thesis by simp
qed

lemma trim_last: "trim s \<noteq> [] \<Longrightarrow> \<not> is_space (last (trim s))"
  unfolding trim_def by (metis hd_dropWhile last_rev rev_is_Nil_conv)

lemma length_split_ws_trim:
  "trim s \<noteq> [] \<Longrightarrow> length (split_ws (trim s)) = word_count (trim s)"
proof -
  assume ne: "trim s \<noteq> []"
  then obtain c cs where t: "trim s = c # cs" by (cases "trim s") auto
  have c: "\<not> is_space c" using trim_hd [OF ne] t by simp
  have e: "ends_in_word True cs" using trim_last [OF ne] t c by (auto simp: ends_in_word_def)
  have "int (count_words True cs) - int (count_runs False cs) = 0"
    using words_runs [of True cs] e by simp
  then have "count_words True cs = count_runs False cs" by simp
  then show ?thesis using c t by (simp add: split_ws_def length_split_ws_from word_count_def)
qed

lemma ceil_quarter: "- ((- int n) div 4) = \<lceil>real n / 4\<rceil>"
  by linarith

text \<open>
  C7. \<open>tokenLength\<close> returns a nonnegative integer: 0 for a part that is not text or
  whose text is empty, and otherwise the maximum of the number of whitespace-separated
  words of the trimmed text and of the ceiling of a quarter of the text's length, which is
  at least 1.
\<close>

theorem tokenLength_value:
  "0 \<le> fst (tokenLength this p)
   \<and> (\<not> is_text_part p \<or> part_text p = [] \<longrightarrow> fst (tokenLength this p) = 0)
   \<and> (is_text_part p \<and> part_text p \<noteq> [] \<longrightarrow>
        fst (tokenLength this p)
          = max (int (word_count (trim (part_text p)))) \<lceil>real (length (part_text p)) / 4\<rceil>
        \<and> 1 \<le> fst (tokenLength this p))"
proof (cases p)
  case (NonText k)
  then show ?thesis by (simp add: tokenLength_def)
next
  case (Text t)
  show ?thesis
  proof (cases "t = []")
    case True
    with Text show ?thesis by (simp add: tokenLength_def estimateTokenCount_def)
  next
    case False
    then have pos: "1 \<le> \<lceil>real (length t) / 4\<rceil>"
      by (cases t) (simp_all add: ceil_quarter [symmetric])
    have w: "max (int (length (split_ws (trim t)))) \<lceil>real (length t) / 4\<rceil>
           = max (int (word_count (trim t))) \<lceil>real (length t) / 4\<rceil>"
    proof (cases "trim t = []")
      case True
      with pos show ?thesis by (simp add: split_ws_def word_count_def)
    next
      case False
      then show ?thesis by (simp add: length_split_ws_trim)
    qed
    have v: "fst (tokenLength this p)
           = max (int (word_count (trim t))) \<lceil>real (length t) / 4\<rceil>"
      using Text False w by (simp add: tokenLength_def estimateTokenCount_def Let_def ceil_quarter)
    have one: "1 \<le> fst (tokenLength this p)"
      unfolding v using pos by (rule max.coboundedI2)
    then have "0 \<le> fst (tokenLength this p)" by linarith
    with v one Text False show ?thesis by simp
  qed
qed

theorem tokenLength_value_witness:
  "is_text_part (Text ''Hello world'') \<and> part_text (Text ''Hello world'') \<noteq> []
   \<and> fst (tokenLength new_SimpleTokenizer (Text ''Hello world''))
       = max (int (word_count (trim ''Hello world''))) \<lceil>real (length ''Hello world'') / 4\<rceil>
   \<and> fst (tokenLength new_SimpleTokenizer (Text ''Hello world'')) = 3
   \<and> 1 \<le> fst (tokenLength new_SimpleTokenizer (Text ''Hello world''))
   \<and> fst (tokenLength new_SimpleTokenizer (Text [])) = 0
   \<and> fst (tokenLength new_SimpleTokenizer (NonText 0)) = 0"
proof -
  have v: "fst (tokenLength new_SimpleTokenizer (Text ''Hello world'')) = 3"
    by code_simp
  from tokenLength_value [of new_SimpleTokenizer "Text ''Hello world''"]
    tokenLength_value [of new_SimpleTokenizer "Text []"]
    tokenLength_value [of new_SimpleTokenizer "NonText 0"] v
  show ?thesis by simp
qed

section \<open>Properties of the cancellation source\<close>











text \<open>
  Why the listeners have to be inert: the walk is over the live array. A listener that
  disposes its own registration moves the next listener to the index just visited, and
  that listener is never invoked; a listener that throws ends the walk. The order of the
  invocations is the order of the array, which is not the order of the registrations when
  a listener is registered twice and one registration is disposed. A listener that disposes
  the source does not stop the walk over the old array.
\<close>

lemma self_disposing_listener_skips_next:
  "snd (run self_disposing [Register 1, Register 2, Cancel]) = [1]"
  by code_simp

lemma throwing_listener_aborts:
  "snd (run throwing [Register 1, Register 2, Cancel, Cancel]) = [1]"
  by code_simp

lemma disposed_duplicate_order:
  "snd (run inert [Register 1, Register 2, Register 1, Unregister 1, Cancel]) = [2, 1]"
  by code_simp

lemma dispose_during_notification:
  "run disposing_source [Register 1, Register 2, Register 3, Cancel]
     = (\<lparr>token_isCancellationRequested = True, isCancelled = True, listeners = [9]\<rparr>, [1, 2, 3])"
  by code_simp

section \<open>Properties of the file expansion\<close>

lemma expand_cost:
  "nextLine t = Some l \<Longrightarrow> content_cost sizing (expand t) = content_cost sizing t + countTokens sizing l"
  by (auto simp: nextLine_def expand_def content_cost_def tokenCount_def Let_def
      split: NextLineIs.splits if_splits)

lemma for_files_cost:
  "total_cost sizing (round_files (for_files sizing fs tc any)) + tc
     = round_tokenCount (for_files sizing fs tc any) + total_cost sizing fs"
proof (induction fs arbitrary: tc any)
  case Nil
  show ?case by (simp add: total_cost_def)
next
  case (Cons f fs)
  show ?case
  proof (cases "nextLine f")
    case None
    with Cons.IH [of tc any] show ?thesis by (simp add: total_cost_def Let_def)
  next
    case (Some l)
    with Cons.IH [of "tc + countTokens sizing l" True] expand_cost [OF Some, of sizing]
    show ?thesis by (simp add: total_cost_def Let_def)
  qed
qed

lemma for_files_bound:
  "tc \<le> b \<Longrightarrow> tokenBudget sizing \<le> b \<Longrightarrow> round_tokenCount (for_files sizing fs tc any) \<le> b"
proof (induction fs arbitrary: tc any)
  case Nil
  then show ?case by simp
next
  case (Cons f fs)
  show ?case
  proof (cases "nextLine f")
    case None
    with Cons.IH [of tc any] Cons.prems show ?thesis by (simp add: Let_def)
  next
    case (Some l)
    show ?thesis
    proof (cases "tc + countTokens sizing l > tokenBudget sizing")
      case True
      with Some Cons.prems show ?thesis by simp
    next
      case False
      then have "tc + countTokens sizing l \<le> b" using Cons.prems by simp
      from Cons.IH [OF this Cons.prems(2), of True] Some False show ?thesis by (simp add: Let_def)
    qed
  qed
qed

lemma while_true_cost:
  "tc = total_cost sizing files \<Longrightarrow> tc \<le> b \<Longrightarrow> tokenBudget sizing \<le> b \<Longrightarrow>
   total_cost sizing (while_true sizing files tc) \<le> b"
proof (induction sizing files tc rule: while_true.induct)
  case (1 sizing files tc)
  let ?r = "for_files sizing files tc False"
  have c: "total_cost sizing (round_files ?r) = round_tokenCount ?r"
    using for_files_cost [of sizing files tc False] "1.prems"(1) by simp
  have b: "round_tokenCount ?r \<le> b"
    using "1.prems" by (simp add: for_files_bound)
  show ?case
  proof (cases "returned ?r \<or> \<not> anyHadLinesToExpand ?r")
    case True
    then have "while_true sizing files tc = round_files ?r"
      by (subst while_true.simps) (auto simp: Let_def)
    with c b show ?thesis by simp
  next
    case False
    then have "while_true sizing files tc = while_true sizing (round_files ?r) (round_tokenCount ?r)"
      by (subst while_true.simps) (auto simp: Let_def)
    moreover have "total_cost sizing (while_true sizing (round_files ?r) (round_tokenCount ?r)) \<le> b"
      using False c b "1.prems"(3) by (intro "1.IH") auto
    ultimately show ?thesis by simp
  qed
qed

lemma headers_cost:
  "foldl (\<lambda>tc file. tc + tokenCount file sizing) a files
     = a + sum_list (map (\<lambda>file. tokenCount file sizing) files)"
  by (induction files arbitrary: a) simp_all

lemma initial_cost:
  "total_cost sizing (map new_FileContextTracker fs)
     = sum_list (map (\<lambda>file. tokenCount file sizing) (map new_FileContextTracker fs))"
  by (induction fs) (simp_all add: total_cost_def content_cost_def new_FileContextTracker_def Let_def)

theorem getExpandedFiles_within:
  "total_cost sizing (getExpandedFiles props_files sizing)
     \<le> max (tokenBudget sizing) (headers_tokenCount props_files sizing)"
  unfolding getExpandedFiles_def Let_def headers_tokenCount_def
  by (rule while_true_cost) (simp_all add: headers_cost initial_cost)

lemma grows_refl: "grows t t"
  by (simp add: grows_def)

lemma grows_trans: "grows a b \<Longrightarrow> grows b c \<Longrightarrow> grows a c"
  unfolding grows_def by (rule sublist_order.order_trans)

lemma sublist_Cons_self: "sublist xs (x # xs)"
  by (simp add: sublist_Cons_right)

lemma sublist_snoc_self: "sublist xs (xs @ [x])"
  by (simp add: prefix_imp_sublist)

lemma grows_expand: "grows t (expand t)"
  by (auto simp: grows_def expand_def Let_def sublist_Cons_self sublist_snoc_self)

lemma all_grows_refl: "list_all2 grows fs fs"
  by (simp add: list_all2_refl grows_refl)

lemma all_grows_trans: "list_all2 grows a b \<Longrightarrow> list_all2 grows b c \<Longrightarrow> list_all2 grows a c"
  by (rule list_all2_trans [of grows grows grows]) (auto intro: grows_trans)

lemma for_files_grows: "list_all2 grows fs (round_files (for_files sizing fs tc any))"
proof (induction fs arbitrary: tc any)
  case Nil
  show ?case by simp
next
  case (Cons f fs)
  show ?case
    by (cases "nextLine f") (auto simp: Let_def grows_refl grows_expand all_grows_refl Cons.IH)
qed

lemma while_true_grows: "list_all2 grows files (while_true sizing files tc)"
proof (induction sizing files tc rule: while_true.induct)
  case (1 sizing files tc)
  let ?r = "for_files sizing files tc False"
  have g: "list_all2 grows files (round_files ?r)" by (rule for_files_grows)
  show ?case
  proof (cases "returned ?r \<or> \<not> anyHadLinesToExpand ?r")
    case True
    then have "while_true sizing files tc = round_files ?r"
      by (subst while_true.simps) (auto simp: Let_def)
    with g show ?thesis by simp
  next
    case False
    then have "while_true sizing files tc = while_true sizing (round_files ?r) (round_tokenCount ?r)"
      by (subst while_true.simps) (auto simp: Let_def)
    moreover have "list_all2 grows (round_files ?r) (while_true sizing (round_files ?r) (round_tokenCount ?r))"
      using False by (intro "1.IH") auto
    ultimately show ?thesis using g all_grows_trans by simp
  qed
qed

lemma for_files_budget_mono:
  assumes "countTokens s2 = countTokens s1" and "tokenBudget s1 \<le> tokenBudget s2"
  shows "(if returned (for_files s1 fs tc any)
          then list_all2 grows (round_files (for_files s1 fs tc any)) (round_files (for_files s2 fs tc any))
          else for_files s2 fs tc any = for_files s1 fs tc any)"
proof (induction fs arbitrary: tc any)
  case Nil
  show ?case by simp
next
  case (Cons f fs)
  show ?case
  proof (cases "nextLine f")
    case None
    with Cons.IH [of tc any] show ?thesis by (simp add: Let_def grows_refl split: if_splits)
  next
    case (Some l)
    show ?thesis
    proof (cases "tc + countTokens s1 l > tokenBudget s1")
      case True
      with Some assms show ?thesis
        by (simp add: Let_def grows_refl grows_expand all_grows_refl for_files_grows)
    next
      case False
      with assms have "\<not> tc + countTokens s2 l > tokenBudget s2" by simp
      with False Some assms(1) Cons.IH [of "tc + countTokens s1 l" True] show ?thesis
        by (simp add: Let_def grows_refl split: if_splits)
    qed
  qed
qed

lemma while_true_budget_mono:
  assumes "countTokens s2 = countTokens s1" and "tokenBudget s1 \<le> tokenBudget s2"
  shows "list_all2 grows (while_true s1 files tc) (while_true s2 files tc)"
  using assms
proof (induction s1 files tc rule: while_true.induct)
  case (1 s1 files tc)
  let ?r1 = "for_files s1 files tc False"
  let ?r2 = "for_files s2 files tc False"
  note m = for_files_budget_mono [OF "1.prems", of files tc False]
  show ?case
  proof (cases "returned ?r1")
    case True
    then have w1: "while_true s1 files tc = round_files ?r1"
      by (subst while_true.simps) (simp add: Let_def)
    from True m have g: "list_all2 grows (round_files ?r1) (round_files ?r2)" by simp
    have "list_all2 grows (round_files ?r2) (while_true s2 files tc)"
    proof (cases "returned ?r2 \<or> \<not> anyHadLinesToExpand ?r2")
      case True
      then have "while_true s2 files tc = round_files ?r2"
        by (subst while_true.simps) (auto simp: Let_def)
      then show ?thesis by (simp add: all_grows_refl)
    next
      case False
      then have "while_true s2 files tc = while_true s2 (round_files ?r2) (round_tokenCount ?r2)"
        by (subst while_true.simps) (auto simp: Let_def)
      then show ?thesis by (simp add: while_true_grows)
    qed
    with g w1 show ?thesis using all_grows_trans by simp
  next
    case False
    with m have e: "?r2 = ?r1" by simp
    show ?thesis
    proof (cases "anyHadLinesToExpand ?r1")
      case no: False
      have "while_true s1 files tc = round_files ?r1"
        using no by (subst while_true.simps) (simp add: Let_def)
      moreover have "while_true s2 files tc = round_files ?r1"
        using no e by (subst while_true.simps) (simp add: Let_def)
      ultimately show ?thesis by (simp add: all_grows_refl)
    next
      case yes: True
      have "while_true s1 files tc = while_true s1 (round_files ?r1) (round_tokenCount ?r1)"
        using False yes by (subst while_true.simps) (simp add: Let_def)
      moreover have "while_true s2 files tc = while_true s2 (round_files ?r1) (round_tokenCount ?r1)"
        using False yes e by (subst while_true.simps) (simp add: Let_def)
      moreover have "list_all2 grows (while_true s1 (round_files ?r1) (round_tokenCount ?r1))
          (while_true s2 (round_files ?r1) (round_tokenCount ?r1))"
        using False yes "1.prems" by (intro "1.IH") auto
      ultimately show ?thesis by simp
    qed
  qed
qed

theorem getExpandedFiles_budget_mono:
  assumes "b1 \<le> b2"
  shows "list_all2 (\<lambda>t1 t2. sublist (lines t1) (lines t2))
           (getExpandedFiles props_files \<lparr>tokenBudget = b1, countTokens = ct\<rparr>)
           (getExpandedFiles props_files \<lparr>tokenBudget = b2, countTokens = ct\<rparr>)"
proof -
  let ?s1 = "\<lparr>tokenBudget = b1, countTokens = ct\<rparr>" and ?s2 = "\<lparr>tokenBudget = b2, countTokens = ct\<rparr>"
  have "foldl (\<lambda>tc file. tc + tokenCount file ?s2) 0 (map new_FileContextTracker props_files)
      = foldl (\<lambda>tc file. tc + tokenCount file ?s1) 0 (map new_FileContextTracker props_files)"
    by (simp add: tokenCount_def)
  moreover have "countTokens ?s2 = countTokens ?s1" and "tokenBudget ?s1 \<le> tokenBudget ?s2"
    using assms by simp_all
  ultimately show ?thesis
    using while_true_budget_mono [of ?s2 ?s1] unfolding getExpandedFiles_def Let_def grows_def [abs_def]
    by simp
qed

text \<open>
  C2 fails on the code: the cost of the headers and footers is never compared with the
  budget. With the simple tokenizer the header and footer of a file named \<^verbatim>\<open>a\<close>
  cost 3 + 2 tokens; under a budget of 4 the content returned costs 5.
\<close>

theorem getExpandedFiles_exceeds_budget:
  "total_cost (simple_sizing 4)
     (getExpandedFiles [\<lparr>filename = ''a'', file_content = ''x'', focusLine = None\<rparr>] (simple_sizing 4))
     = 5
   \<and> tokenBudget (simple_sizing 4) = 4
   \<and> map lines (getExpandedFiles [\<lparr>filename = ''a'', file_content = ''x'', focusLine = None\<rparr>]
                   (simple_sizing 4)) = [[]]"
  by code_simp

text \<open>
  C3 fails on the code in its second half, for the same reason: with one token for every
  character the header and footer of a file named \<^verbatim>\<open>a\<close> cost 8 + 5 tokens, and
  raising the budget from 0 to 10 gives content that costs 13. The first half of C3 is
  \<open>getExpandedFiles_budget_mono\<close> above.
\<close>

theorem getExpandedFiles_larger_budget_exceeded:
  "(0::int) \<le> 10
   \<and> total_cost (length_sizing 10)
       (getExpandedFiles [\<lparr>filename = ''a'', file_content = ''x'', focusLine = None\<rparr>] (length_sizing 10))
       = 13
   \<and> tokenBudget (length_sizing 10) = 10"
  by code_simp

section \<open>Properties of the file tracker\<close>

lemma slice_Cons:
  "0 \<le> lo \<Longrightarrow> lo < hi \<Longrightarrow> hi \<le> int (length xs) \<Longrightarrow>
   slice lo hi xs = xs ! nat lo # slice (lo + 1) hi xs"
proof -
  assume a: "0 \<le> lo" "lo < hi" "hi \<le> int (length xs)"
  then have l: "nat lo < length xs" by linarith
  have n: "nat (hi - lo) = Suc (nat (hi - (lo + 1)))" using a by linarith
  have s: "nat (lo + 1) = Suc (nat lo)" using a by linarith
  show ?thesis
    unfolding slice_def n s using Cons_nth_drop_Suc [OF l, symmetric] by simp
qed

lemma slice_snoc:
  "0 \<le> lo \<Longrightarrow> lo \<le> hi \<Longrightarrow> hi < int (length xs) \<Longrightarrow>
   slice lo (hi + 1) xs = slice lo hi xs @ [xs ! nat hi]"
proof -
  assume a: "0 \<le> lo" "lo \<le> hi" "hi < int (length xs)"
  have n: "nat (hi + 1 - lo) = Suc (nat (hi - lo))" using a by linarith
  have k: "nat (hi - lo) < length (drop (nat lo) xs)" using a by simp
  have i: "nat lo + nat (hi - lo) = nat hi" using a by linarith
  have "nat lo + nat (hi - lo) \<le> length xs" using a by linarith
  then have "drop (nat lo) xs ! nat (hi - lo) = xs ! nat hi"
    using i by (simp add: nth_drop)
  then show ?thesis
    unfolding slice_def n by (simp add: take_Suc_conv_app_nth [OF k])
qed

lemma slice_empty: "slice lo lo xs = []"
  by (simp add: slice_def)


lemma of_int_less_length: "(of_int b :: rat) < of_nat m \<longleftrightarrow> b < int m"
  by (metis of_int_less_iff of_int_of_nat_eq)

lemma of_int_less_length_pred: "(of_int b :: rat) < of_nat m - 1 \<longleftrightarrow> b < int m - 1"
proof -
  have "(of_nat m :: rat) - 1 = of_int (int m - 1)" by simp
  then show ?thesis by (simp only: of_int_less_iff)
qed

lemma element_of_int:
  "0 \<le> a \<Longrightarrow> a < int (length xs) \<Longrightarrow> element xs (of_int a) = Some (xs ! nat a)"
  by (simp add: element_def of_int_less_length)

lemma image_of_int_insert:
  "lo \<le> hi \<Longrightarrow> (of_int ` {lo ..< hi + 1} :: rat set) = insert (of_int hi) (of_int ` {lo ..< hi})"
proof -
  assume "lo \<le> hi"
  then have "{lo ..< hi + 1} = insert hi {lo ..< hi}" by auto
  then show ?thesis by simp
qed

lemma image_of_int_insert_low:
  "lo \<le> hi \<Longrightarrow> (of_int ` {lo ..< hi + 1} :: rat set) = insert (of_int lo) (of_int ` {lo + 1 ..< hi + 1})"
proof -
  assume "lo \<le> hi"
  then have "{lo ..< hi + 1} = insert lo {lo + 1 ..< hi + 1}" by auto
  then show ?thesis by simp
qed

lemma of_int_notin_image: "(of_int i :: rat) \<in> of_int ` S \<longleftrightarrow> i \<in> S"
  by auto

lemma new_tracker_inv:
  assumes "valid_focus f" and "0 \<le> focus_of f"
  shows "tracker_inv \<lfloor>focus_of f\<rfloor> (split_newline (file_content f)) (new_FileContextTracker f, [])"
proof -
  let ?F = "\<lfloor>focus_of f\<rfloor>"
  from assms(1) have "of_int ?F = focus_of f" unfolding valid_focus_def by (rule conjunct1)
  then have i: "focus_of f = of_int ?F" by (rule sym)
  from assms i have "0 \<le> ?F" and "?F < int (length (split_newline (file_content f)))"
    by (simp_all add: valid_focus_def of_int_less_length [symmetric])
  moreover have "aboveLine (new_FileContextTracker f) = focus_of f"
    "belowLine (new_FileContextTracker f) = focus_of f"
    "nextLineIs (new_FileContextTracker f) = Next_above"
    "lines (new_FileContextTracker f) = []"
    "allLines (new_FileContextTracker f) = split_newline (file_content f)"
    by (simp_all add: new_FileContextTracker_def focus_of_def Let_def)
  ultimately show ?thesis using i
    by (simp add: tracker_inv_def bounds_def Let_def slice_empty)
qed

lemma expand_above_inv:
  assumes i: "tracker_inv F all (t, added)" and s: "nextLineIs t = Next_above"
  shows "tracker_inv F all (expand t, added @ [aboveLine t])"
proof -
  let ?a = "\<lfloor>aboveLine t\<rfloor>" and ?b = "\<lfloor>belowLine t\<rfloor>" and ?n = "int (length all)"
  from i s have al: "allLines t = all"
    and aa: "aboveLine t = of_int ?a" and bb: "belowLine t = of_int ?b"
    and r: "0 \<le> ?a" "?a \<le> F" "F \<le> ?b" "?b < ?n" "?a = F \<longrightarrow> ?b = F"
    and l: "lines t = map Some (slice (?a + 1) (?b + 1) all)"
    and ad: "set added = of_int ` {?a + 1 ..< ?b + 1}" "distinct added"
    by (simp_all add: tracker_inv_def bounds_def Let_def)
  have an: "?a < ?n" using r by linarith
  have e: "element all (aboveLine t) = Some (all ! nat ?a)"
    by (metis aa element_of_int r(1) an)
  have sl: "slice ?a (?b + 1) all = all ! nat ?a # slice (?a + 1) (?b + 1) all"
    using r by (intro slice_Cons) simp_all
  have l': "element all (aboveLine t) # lines t = map Some (slice ?a (?b + 1) all)"
    using e l sl by simp
  have "aboveLine t \<notin> set added"
    using ad(1) of_int_notin_image [of ?a "{?a + 1 ..< ?b + 1}"] aa by simp
  moreover have "insert (aboveLine t) (set added) = of_int ` {?a ..< ?b + 1}"
    using ad(1) image_of_int_insert_low [of ?a ?b] r aa by simp
  ultimately have ad': "set (added @ [aboveLine t]) = of_int ` {?a ..< ?b + 1}"
    "distinct (added @ [aboveLine t])"
    using ad(2) by simp_all
  have pos: "0 < aboveLine t \<longleftrightarrow> 0 < ?a" using aa by (metis of_int_0_less_iff)
  have room: "belowLine t < of_nat (length all) - 1 \<longleftrightarrow> ?b < ?n - 1"
    using bb of_int_less_length_pred [of ?b "length all"] by simp
  have ge: "0 \<le> aboveLine t" using aa r by (metis of_int_0_le_iff)
  consider (below) "?b < ?n - 1" | (above) "\<not> ?b < ?n - 1" "0 < ?a"
    | (none) "\<not> ?b < ?n - 1" "\<not> 0 < ?a" by blast
  then show ?thesis
  proof cases
    case below
    then have x: "expand t = t\<lparr>lines := element all (aboveLine t) # lines t,
        belowLine := of_int (?b + 1), nextLineIs := Next_below\<rparr>"
      using s ge al room bb by (simp add: expand_def Let_def)
    show ?thesis
      unfolding x using al aa r l' ad' below
      by (simp add: tracker_inv_def bounds_def Let_def)
  next
    case above
    then have x: "expand t = t\<lparr>lines := element all (aboveLine t) # lines t,
        aboveLine := of_int (?a - 1)\<rparr>"
      using s ge al room pos aa by (simp add: expand_def Let_def)
    show ?thesis
      unfolding x using al bb r l' ad' above s
      by (simp add: tracker_inv_def bounds_def Let_def)
  next
    case none
    then have x: "expand t = t\<lparr>lines := element all (aboveLine t) # lines t,
        nextLineIs := Next_none\<rparr>"
      using s ge al room pos by (simp add: expand_def Let_def)
    from none r have z: "?a = 0" "?b = ?n - 1" by linarith+
    show ?thesis
      unfolding x using al aa bb r l' ad' z
      by (simp add: tracker_inv_def bounds_def Let_def)
  qed
qed

lemma expand_below_inv:
  assumes i: "tracker_inv F all (t, added)" and s: "nextLineIs t = Next_below"
  shows "tracker_inv F all (expand t, added @ [belowLine t])"
proof -
  let ?a = "\<lfloor>aboveLine t\<rfloor>" and ?b = "\<lfloor>belowLine t\<rfloor>" and ?n = "int (length all)"
  from i s have al: "allLines t = all"
    and aa: "aboveLine t = of_int ?a" and bb: "belowLine t = of_int ?b"
    and r: "0 \<le> ?a" "?a \<le> F" "F < ?b" "?b < ?n"
    and l: "lines t = map Some (slice ?a ?b all)"
    and ad: "set added = of_int ` {?a ..< ?b}" "distinct added"
    by (simp_all add: tracker_inv_def bounds_def Let_def)
  have b0: "0 \<le> ?b" using r by linarith
  have e: "element all (belowLine t) = Some (all ! nat ?b)"
    by (metis bb element_of_int b0 r(4))
  have sl: "slice ?a (?b + 1) all = slice ?a ?b all @ [all ! nat ?b]"
    using r by (intro slice_snoc) simp_all
  have l': "lines t @ [element all (belowLine t)] = map Some (slice ?a (?b + 1) all)"
    using e l sl by simp
  have "belowLine t \<notin> set added"
    using ad(1) of_int_notin_image [of ?b "{?a ..< ?b}"] bb by simp
  moreover have "insert (belowLine t) (set added) = of_int ` {?a ..< ?b + 1}"
    using ad(1) image_of_int_insert [of ?a ?b] r bb by simp
  ultimately have ad': "set (added @ [belowLine t]) = of_int ` {?a ..< ?b + 1}"
    "distinct (added @ [belowLine t])"
    using ad(2) by simp_all
  have pos: "0 < aboveLine t \<longleftrightarrow> 0 < ?a" using aa by (metis of_int_0_less_iff)
  have room: "belowLine t < of_nat (length all) - 1 \<longleftrightarrow> ?b < ?n - 1"
    using bb of_int_less_length_pred [of ?b "length all"] by simp
  have lt: "belowLine t < of_nat (length all)"
    using bb r of_int_less_length [of ?b "length all"] by simp
  consider (above) "0 < ?a" | (below) "\<not> 0 < ?a" "?b < ?n - 1"
    | (none) "\<not> 0 < ?a" "\<not> ?b < ?n - 1" by blast
  then show ?thesis
  proof cases
    case above
    then have x: "expand t = t\<lparr>lines := lines t @ [element all (belowLine t)],
        aboveLine := of_int (?a - 1), nextLineIs := Next_above\<rparr>"
      using s lt al pos aa by (simp add: expand_def Let_def)
    show ?thesis
      unfolding x using al bb r l' ad' above
      by (simp add: tracker_inv_def bounds_def Let_def)
  next
    case below
    then have x: "expand t = t\<lparr>lines := lines t @ [element all (belowLine t)],
        belowLine := of_int (?b + 1)\<rparr>"
      using s lt al pos room bb by (simp add: expand_def Let_def)
    show ?thesis
      unfolding x using al aa r l' ad' below s
      by (simp add: tracker_inv_def bounds_def Let_def)
  next
    case none
    then have x: "expand t = t\<lparr>lines := lines t @ [element all (belowLine t)],
        nextLineIs := Next_none\<rparr>"
      using s lt al pos room by (simp add: expand_def Let_def)
    from none r have z: "?a = 0" "?b = ?n - 1" by linarith+
    show ?thesis
      unfolding x using al aa bb r l' ad' z
      by (simp add: tracker_inv_def bounds_def Let_def)
  qed
qed

lemma call_inv:
  assumes "tracker_inv F all st"
  shows "tracker_inv F all (call st c)"
proof (cases st)
  case (Pair t added)
  show ?thesis
  proof (cases c)
    case Call_nextLine
    with Pair assms show ?thesis by simp
  next
    case Call_expand
    show ?thesis
    proof (cases "nextLineIs t")
      case Next_above
      from assms Pair Next_above have "aboveLine t = of_int \<lfloor>aboveLine t\<rfloor>" "0 \<le> \<lfloor>aboveLine t\<rfloor>"
        by (simp_all add: tracker_inv_def Let_def)
      then have "0 \<le> aboveLine t" by (metis of_int_0_le_iff)
      with expand_above_inv [of F all t added] assms Pair Next_above Call_expand
      show ?thesis by (simp add: expand_index_def)
    next
      case Next_below
      from assms Pair Next_below have "belowLine t = of_int \<lfloor>belowLine t\<rfloor>"
        "\<lfloor>belowLine t\<rfloor> < int (length (allLines t))"
        by (simp_all add: tracker_inv_def Let_def)
      then have "belowLine t < of_nat (length (allLines t))"
        using of_int_less_length [of "\<lfloor>belowLine t\<rfloor>" "length (allLines t)"] by simp
      with expand_below_inv [of F all t added] assms Pair Next_below Call_expand
      show ?thesis by (simp add: expand_index_def)
    next
      case Next_none
      with assms Pair Call_expand show ?thesis
        by (simp add: expand_index_def expand_def)
    qed
  qed
qed

lemma foldl_call_inv:
  "tracker_inv F all st \<Longrightarrow> tracker_inv F all (foldl call st calls)"
  by (induction calls arbitrary: st) (simp_all add: call_inv)

lemma run_calls_inv:
  "valid_focus f \<Longrightarrow> 0 \<le> focus_of f \<Longrightarrow>
   tracker_inv \<lfloor>focus_of f\<rfloor> (split_newline (file_content f)) (run_calls f calls)"
  unfolding run_calls_def by (intro foldl_call_inv new_tracker_inv)

lemma call_idle:
  "nextLineIs t = Next_above \<Longrightarrow> aboveLine t < 0 \<Longrightarrow> call (t, added) c = (t, added)"
  by (cases c) (simp_all add: expand_def expand_index_def)

lemma foldl_call_idle:
  "nextLineIs t = Next_above \<Longrightarrow> aboveLine t < 0 \<Longrightarrow> foldl call (t, added) calls = (t, added)"
  by (induction calls) (simp_all add: call_idle)

lemma run_calls_idle:
  "focus_of f < 0 \<Longrightarrow> run_calls f calls = (new_FileContextTracker f, [])"
  unfolding run_calls_def
  by (rule foldl_call_idle) (simp_all add: new_FileContextTracker_def focus_of_def Let_def)

lemma lines_expand_above:
  "nextLineIs t = Next_above \<Longrightarrow> 0 \<le> aboveLine t \<Longrightarrow>
   lines (expand t) = element (allLines t) (aboveLine t) # lines t"
  by (simp add: expand_def Let_def)

lemma lines_expand_below:
  "nextLineIs t = Next_below \<Longrightarrow> belowLine t < of_nat (length (allLines t)) \<Longrightarrow>
   lines (expand t) = lines t @ [element (allLines t) (belowLine t)]"
  by (simp add: expand_def Let_def)

lemma slice_Nil_iff: "hi \<le> lo \<Longrightarrow> slice lo hi xs = []"
  by (simp add: slice_def)

text \<open>The default focus line is a line of the file.\<close>

lemma split_newline_from_nonempty: "split_newline_from cur s \<noteq> []"
  by (induction s arbitrary: cur) simp_all

lemma default_focus_valid: "focusLine f = None \<Longrightarrow> 0 \<le> focus_of f \<and> valid_focus f"
proof -
  assume d: "focusLine f = None"
  let ?n = "int (length (split_newline (file_content f)))"
  have "split_newline (file_content f) \<noteq> []"
    by (simp add: split_newline_def split_newline_from_nonempty)
  then have "0 < ?n" by simp
  then have "?n div 2 < ?n" and "0 \<le> ?n div 2" by linarith+
  moreover have "focus_of f = of_int (?n div 2)" using d by (simp add: focus_of_def)
  ultimately show ?thesis
    using of_int_less_length [of "?n div 2" "length (split_newline (file_content f))"]
    by (simp add: valid_focus_def)
qed

text \<open>
  C9, as the code has it: for a tracker whose focus line is an integer that lies before
  the end of the file (the default focus line always is) and after any history of calls of
  \<^verbatim>\<open>nextLine\<close> and \<^verbatim>\<open>expand\<close>, the lines held are the slice of the file's
  lines between the bounds of the tracker; when there are any, the slice lies within the
  file and contains the focus line; the indices added so far are exactly those of the slice,
  each once; when \<^verbatim>\<open>nextLine\<close> returns nothing, \<^verbatim>\<open>expand\<close> changes nothing;
  and when it returns a line, that line is a line of the file not added before, followed
  by a newline, and \<^verbatim>\<open>expand\<close> adds exactly it, in front or at the end.
\<close>

theorem tracker_lines_contiguous:
  assumes "valid_focus f"
  shows "(let t = fst (run_calls f calls); added = snd (run_calls f calls);
              all = split_newline (file_content f); lo = fst (bounds t); hi = snd (bounds t)
          in allLines t = all \<and> lo \<le> hi
             \<and> lines t = map Some (slice lo hi all)
             \<and> (lines t \<noteq> [] \<longrightarrow>
                  0 \<le> lo \<and> hi \<le> int (length all)
                  \<and> of_int lo \<le> focus_of f \<and> focus_of f < of_int hi)
             \<and> set added = of_int ` {lo ..< hi} \<and> distinct added
             \<and> (nextLine t = None \<longrightarrow> expand t = t)
             \<and> (\<forall>l. nextLine t = Some l \<longrightarrow>
                  (\<exists>i. 0 \<le> i \<and> i < int (length all) \<and> of_int i \<notin> set added
                       \<and> l = all ! nat i @ [CHR 0x0A]
                       \<and> (lines (expand t) = Some (all ! nat i) # lines t
                          \<or> lines (expand t) = lines t @ [Some (all ! nat i)]))))"
proof -
  obtain t added where st: "run_calls f calls = (t, added)" by (cases "run_calls f calls")
  let ?all = "split_newline (file_content f)" and ?F = "\<lfloor>focus_of f\<rfloor>"
  let ?n = "int (length ?all)" and ?a = "\<lfloor>aboveLine t\<rfloor>" and ?b = "\<lfloor>belowLine t\<rfloor>"
  let ?lo = "fst (bounds t)" and ?hi = "snd (bounds t)"
  from assms have "of_int ?F = focus_of f" unfolding valid_focus_def by (rule conjunct1)
  then have fi: "focus_of f = of_int ?F" by (rule sym)
  have "allLines t = ?all \<and> ?lo \<le> ?hi
      \<and> lines t = map Some (slice ?lo ?hi ?all)
      \<and> (lines t \<noteq> [] \<longrightarrow> 0 \<le> ?lo \<and> ?hi \<le> ?n \<and> ?lo \<le> ?F \<and> ?F < ?hi)
      \<and> set added = of_int ` {?lo ..< ?hi} \<and> distinct added
      \<and> (nextLine t = None \<longrightarrow> expand t = t)
      \<and> (\<forall>l. nextLine t = Some l \<longrightarrow>
            (\<exists>i. 0 \<le> i \<and> i < ?n \<and> of_int i \<notin> set added
                 \<and> l = ?all ! nat i @ [CHR 0x0A]
                 \<and> (lines (expand t) = Some (?all ! nat i) # lines t
                    \<or> lines (expand t) = lines t @ [Some (?all ! nat i)])))"
  proof (cases "0 \<le> focus_of f")
    case False
    then have "run_calls f calls = (new_FileContextTracker f, [])"
      by (simp add: run_calls_idle)
    with st have t: "t = new_FileContextTracker f" and a: "added = []" by simp_all
    have f: "aboveLine t = focus_of f" "belowLine t = focus_of f" "nextLineIs t = Next_above"
      "lines t = []" "allLines t = ?all"
      unfolding t by (simp_all add: new_FileContextTracker_def focus_of_def Let_def)
    have "nextLine t = None" using f False by (simp add: nextLine_def)
    moreover have "expand t = t" using f False by (simp add: expand_def)
    ultimately show ?thesis using f a by (simp add: bounds_def slice_empty)
  next
    case True
    from run_calls_inv [OF assms True, of calls] st
    have inv: "tracker_inv ?F ?all (t, added)" by simp
    then have al: "allLines t = ?all"
      and aa: "aboveLine t = of_int ?a" and bb: "belowLine t = of_int ?b"
      and l: "lines t = map Some (slice ?lo ?hi ?all)"
      and ad: "set added = of_int ` {?lo ..< ?hi}" "distinct added"
      by (simp_all add: tracker_inv_def Let_def)
    have "?lo \<le> ?hi
        \<and> (lines t \<noteq> [] \<longrightarrow> 0 \<le> ?lo \<and> ?hi \<le> ?n \<and> ?lo \<le> ?F \<and> ?F < ?hi)
        \<and> (nextLine t = None \<longrightarrow> expand t = t)
        \<and> (\<forall>l. nextLine t = Some l \<longrightarrow>
              (\<exists>i. 0 \<le> i \<and> i < ?n \<and> of_int i \<notin> set added
                   \<and> l = ?all ! nat i @ [CHR 0x0A]
                   \<and> (lines (expand t) = Some (?all ! nat i) # lines t
                      \<or> lines (expand t) = lines t @ [Some (?all ! nat i)])))"
    proof (cases "nextLineIs t")
      case Next_above
      with inv have r: "0 \<le> ?a" "?a \<le> ?F" "?F \<le> ?b" "?b < ?n" "?a = ?F \<longrightarrow> ?b = ?F"
        by (simp_all add: tracker_inv_def Let_def)
      have b: "?lo = ?a + 1" "?hi = ?b + 1" using Next_above by (simp_all add: bounds_def)
      have ge: "0 \<le> aboveLine t" using aa r by (metis of_int_0_le_iff)
      have an: "?a < ?n" using r by linarith
      have e: "element ?all (aboveLine t) = Some (?all ! nat ?a)"
        by (metis aa element_of_int r(1) an)
      have ne: "lines t \<noteq> [] \<longrightarrow> ?a < ?b"
        using l b slice_Nil_iff [of "?b + 1" "?a + 1" ?all] by (cases "?a < ?b") simp_all
      have nl: "nextLine t = Some (?all ! nat ?a @ [CHR 0x0A])"
        using Next_above ge al e by (simp add: nextLine_def js_string_def)
      have ex: "lines (expand t) = Some (?all ! nat ?a) # lines t"
        using lines_expand_above [OF Next_above ge] al e by simp
      have na: "of_int ?a \<notin> set added"
        using ad(1) b of_int_notin_image [of ?a "{?a + 1 ..< ?b + 1}"] by simp
      have "\<exists>i. 0 \<le> i \<and> i < ?n \<and> of_int i \<notin> set added
            \<and> ?all ! nat ?a @ [CHR 0x0A] = ?all ! nat i @ [CHR 0x0A]
            \<and> (lines (expand t) = Some (?all ! nat i) # lines t
               \<or> lines (expand t) = lines t @ [Some (?all ! nat i)])"
        using r(1) an na ex by (intro exI [of _ ?a]) blast
      moreover have "lines t \<noteq> [] \<longrightarrow> 0 \<le> ?lo \<and> ?hi \<le> ?n \<and> ?lo \<le> ?F \<and> ?F < ?hi"
      proof
        assume "lines t \<noteq> []"
        with ne have "?a < ?b" by simp
        with r have "?a \<noteq> ?F" by auto
        with r b show "0 \<le> ?lo \<and> ?hi \<le> ?n \<and> ?lo \<le> ?F \<and> ?F < ?hi" by simp
      qed
      moreover have "?lo \<le> ?hi" using r b by simp
      ultimately show ?thesis using nl by simp
    next
      case Next_below
      with inv have r: "0 \<le> ?a" "?a \<le> ?F" "?F < ?b" "?b < ?n"
        by (simp_all add: tracker_inv_def Let_def)
      have b: "?lo = ?a" "?hi = ?b" using Next_below by (simp_all add: bounds_def)
      have lt: "belowLine t < of_nat (length (allLines t))"
        using bb r al of_int_less_length [of ?b "length ?all"] by simp
      have b0: "0 \<le> ?b" using r by linarith
      have e: "element ?all (belowLine t) = Some (?all ! nat ?b)"
        by (metis bb element_of_int b0 r(4))
      have nl: "nextLine t = Some (?all ! nat ?b @ [CHR 0x0A])"
        using Next_below lt al e by (simp add: nextLine_def js_string_def)
      have ex: "lines (expand t) = lines t @ [Some (?all ! nat ?b)]"
        using lines_expand_below [OF Next_below lt] al e by simp
      have nb: "of_int ?b \<notin> set added"
        using ad(1) b of_int_notin_image [of ?b "{?a ..< ?b}"] by simp
      have "\<exists>i. 0 \<le> i \<and> i < ?n \<and> of_int i \<notin> set added
            \<and> ?all ! nat ?b @ [CHR 0x0A] = ?all ! nat i @ [CHR 0x0A]
            \<and> (lines (expand t) = Some (?all ! nat i) # lines t
               \<or> lines (expand t) = lines t @ [Some (?all ! nat i)])"
        using b0 r(4) nb ex by (intro exI [of _ ?b]) blast
      with r b nl show ?thesis by simp
    next
      case Next_none
      with inv have r: "?a = 0" "?b = ?n - 1" "0 \<le> ?F" "?F < ?n"
        by (simp_all add: tracker_inv_def Let_def)
      have b: "?lo = ?a" "?hi = ?b + 1" using Next_none by (simp_all add: bounds_def)
      have "nextLine t = None" using Next_none by (simp add: nextLine_def)
      moreover have "expand t = t" using Next_none by (simp add: expand_def)
      ultimately show ?thesis using r b by simp
    qed
    with al l ad show ?thesis by blast
  qed
  moreover have "of_int ?lo \<le> focus_of f \<longleftrightarrow> ?lo \<le> ?F"
    using fi by (metis of_int_le_iff)
  moreover have "focus_of f < of_int ?hi \<longleftrightarrow> ?F < ?hi"
    using fi by (metis of_int_less_iff)
  ultimately show ?thesis
    unfolding Let_def st fst_conv snd_conv by blast
qed

theorem tracker_lines_contiguous_witness:
  "valid_focus \<lparr>filename = ''a'', file_content = [CHR ''x'', CHR 0x0A, CHR ''y'', CHR 0x0A, CHR ''z''], focusLine = None\<rparr>
   \<and> lines (fst (run_calls \<lparr>filename = ''a'', file_content = [CHR ''x'', CHR 0x0A, CHR ''y'', CHR 0x0A, CHR ''z''], focusLine = None\<rparr>
                   [Call_expand, Call_nextLine, Call_expand]))
       = [Some ''y'', Some ''z'']
   \<and> distinct (snd (run_calls \<lparr>filename = ''a'', file_content = [CHR ''x'', CHR 0x0A, CHR ''y'', CHR 0x0A, CHR ''z''], focusLine = None\<rparr>
                   [Call_expand, Call_nextLine, Call_expand]))"
proof -
  let ?f = "\<lparr>filename = ''a'', file_content = [CHR ''x'', CHR 0x0A, CHR ''y'', CHR 0x0A, CHR ''z''], focusLine = None\<rparr>"
  let ?c = "[Call_expand, Call_nextLine, Call_expand]"
  have h: "valid_focus ?f" by code_simp
  have l: "lines (fst (run_calls ?f ?c)) = [Some ''y'', Some ''z'']" by code_simp
  from tracker_lines_contiguous [OF h, of ?c] have "distinct (snd (run_calls ?f ?c))"
    unfolding Let_def by blast
  with h l show ?thesis by (intro conjI)
qed

text \<open>
  C9 as stated fails for a focus line at or after the end of the file: for the one-line
  file \<^verbatim>\<open>x\<close> with focus line 1, \<^verbatim>\<open>nextLine\<close> returns the text
  \<^verbatim>\<open>undefined\<close> and a newline, and \<^verbatim>\<open>expand\<close> adds \<^verbatim>\<open>undefined\<close>, which is no
  line of the file.
\<close>

theorem tracker_undefined_line:
  "nextLine (new_FileContextTracker \<lparr>filename = ''a'', file_content = ''x'', focusLine = Some 1\<rparr>)
     = Some (''undefined'' @ [CHR 0x0A])
   \<and> lines (expand (new_FileContextTracker \<lparr>filename = ''a'', file_content = ''x'', focusLine = Some 1\<rparr>))
     = [None]
   \<and> allLines (expand (new_FileContextTracker \<lparr>filename = ''a'', file_content = ''x'', focusLine = Some 1\<rparr>))
     = [''x'']"
  by code_simp

text \<open>
  Why the focus line has to be an integer: a focus line of one half, which lies before the
  end of the two-line file \<^verbatim>\<open>a\<close>, \<^verbatim>\<open>b\<close>, is the index of no line, and neither is any
  index the tracker reaches from it; both lines it adds are \<^verbatim>\<open>undefined\<close>.
\<close>

lemma fractional_focus_line:
  "lines (fst (run_calls \<lparr>filename = ''f'', file_content = [CHR ''a'', CHR 0x0A, CHR ''b''],
                          focusLine = Some (1 / 2)\<rparr>
                [Call_expand, Call_expand, Call_expand]))
     = [None, None]"
  by code_simp

section \<open>Properties of the render entry point\<close>

lemma accept_within:
  "running \<le> budget \<Longrightarrow>
   running + sum_list (map (\<lambda>u. tokenCost (snd u)) (accept budget running us)) \<le> budget"
proof (induction us arbitrary: running)
  case Nil
  then show ?case by simp
next
  case (Cons u us)
  show ?case
  proof (cases "running + tokenCost (snd u) \<le> budget")
    case True
    from Cons.IH [OF True] True show ?thesis by (simp add: add.assoc)
  next
    case False
    with Cons.prems show ?thesis by simp
  qed
qed

lemma sum_list_insort_key:
  "sum_list (map f (insort_key k x xs)) = (f x :: int) + sum_list (map f xs)"
  by (induction xs) (simp_all add: add.left_commute)

lemma sum_list_sort_key:
  "sum_list (map f (sort_key k xs)) = (sum_list (map f xs) :: int)"
  by (induction xs) (simp_all add: sum_list_insort_key)

lemma flatten_tokenCount:
  "result_tokenCount (flatten us) = sum_list (map (\<lambda>u. tokenCost (snd u)) us)"
proof -
  have "sum_list (map tokenCost (map snd (sort_key fst us)))
      = sum_list (map (\<lambda>u. tokenCost (snd u)) (sort_key fst us))"
    by (simp add: comp_def)
  then show ?thesis by (simp add: flatten_def Let_def sum_list_sort_key)
qed

text \<open>A budget below the cost of every message gives no message and a count of 0.\<close>

lemma scenario_small_budget:
  "render (\<lambda>t b. Inr scenario_B) () 2 = Inr \<lparr>messages = [], result_tokenCount = 0\<rparr>"
  by code_simp

text \<open>
  C1. For every tree, every evaluator and every positive budget, a render that succeeds
  returns a token count that is at most the budget.
\<close>

theorem render_within_budget:
  assumes "0 < budget" and "render evaluate tree budget = Inr res"
  shows "result_tokenCount res \<le> budget"
proof -
  from assms obtain pieces where "res = flatten (prune budget pieces)"
    by (auto simp: render_def split: if_splits sum.splits)
  moreover have "0 + sum_list (map (\<lambda>u. tokenCost (snd u)) (prune budget pieces)) \<le> budget"
    unfolding prune_def using assms(1) by (intro accept_within) simp
  ultimately show ?thesis by (simp add: flatten_tokenCount)
qed

lemma scenario_B_render:
  "render (\<lambda>t b. Inr scenario_B) () 8
     = Inr \<lparr>messages = [\<lparr>role = System, content = ''x'', name = None\<rparr>,
                         \<lparr>role = User, content = ''short question'', name = None\<rparr>],
            result_tokenCount = 7\<rparr>"
  by code_simp

theorem render_within_budget_witness:
  "(0::int) < 8
   \<and> render (\<lambda>t b. Inr scenario_B) () 8
       = Inr \<lparr>messages = [\<lparr>role = System, content = ''x'', name = None\<rparr>,
                           \<lparr>role = User, content = ''short question'', name = None\<rparr>],
              result_tokenCount = 7\<rparr>
   \<and> result_tokenCount \<lparr>messages = [\<lparr>role = System, content = ''x'', name = None\<rparr>,
                           \<lparr>role = User, content = ''short question'', name = None\<rparr>],
              result_tokenCount = 7\<rparr> \<le> 8"
proof -
  have h: "(0::int) < 8" by simp
  from render_within_budget [OF h scenario_B_render] h scenario_B_render
  show ?thesis by (intro conjI)
qed

end
